theory Spec2Isabelle
  imports Main
begin

section \<open>The in-memory generational cache of kdex-host (internal/cache/memory.go)\<close>

text \<open>
  Conventions of the embedding.
  \<^item> A \<open>time.Time\<close> and a \<open>time.Duration\<close> are integers (nanoseconds); \<open>time.Now()\<close> is
    the explicit argument \<open>now\<close> of every operation that reads the clock, so
    \<open>time.Now().After(e)\<close> is \<open>now > e\<close> and \<open>time.Now().Add(d)\<close> is \<open>now + d\<close>.
  \<^item> A Go map is a partial function. A \<open>range\<close> over a Go map visits the keys in an order
    the runtime chooses afresh for every loop, so every such loop takes the list of keys it
    visits as an explicit argument (\<open>order\<close>); \<open>covers\<close> says that the list reaches every
    key of the map, which is what the runtime guarantees.
  \<^item> Cache objects live behind pointers: the heap is a list of cache objects and a pointer
    is an index into it. The manager's registry maps class names to pointers.
  \<^item> The \<open>error\<close> result of an operation is an \<open>error option\<close>; \<open>None\<close> is Go's \<open>nil\<close>.
  \<^item> A critical section under a mutex is one atomic state transformer.
\<close>

subsection \<open>Data model\<close>

datatype error = Error string

text \<open>\<open>memoryCacheEntry\<close>; the field \<open>value\<close> is called \<open>val\<close> here.\<close>

record memoryCacheEntry =
  expiry :: int
  val :: string

type_synonym segment = "string \<rightharpoonup> memoryCacheEntry"

text \<open>
  The channel \<open>updateChan\<close>: \<open>NilChan\<close> until the reaper goroutine has made it, then a
  buffer of capacity one (\<open>None\<close> when empty, \<open>Some d\<close> when the interval \<open>d\<close> is pending).
\<close>

datatype updateChan = NilChan | Buffered "int option"

text \<open>\<open>InMemoryCache\<close>. The mutex is not a field of the model.\<close>

record InMemoryCache =
  c_class :: string
  c_currentChecksum :: string
  c_host :: string
  c_segments :: "string \<rightharpoonup> segment"
  c_ttl :: int
  c_uncycled :: bool
  c_updateChan :: updateChan

definition covers :: "'k list \<Rightarrow> ('k \<rightharpoonup> 'v) \<Rightarrow> bool" where
  "covers order m = (dom m \<subseteq> set order)"

subsection \<open>Get\<close>

text \<open>
  The second loop of \<open>Get\<close> (lines 72-84): the generations are visited in the order given;
  the first segment other than the current one that holds the key decides the result.
\<close>

fun Get_scan ::
  "InMemoryCache \<Rightarrow> int \<Rightarrow> string \<Rightarrow> string list \<Rightarrow> string \<times> bool \<times> bool \<times> error option" where
  "Get_scan c now key [] = ('''', False, True, None)"
| "Get_scan c now key (gen # rest) =
     (if gen = c_currentChecksum c then Get_scan c now key rest
      else case c_segments c gen of
        None \<Rightarrow> Get_scan c now key rest
      | Some seg \<Rightarrow>
          (case seg key of
             None \<Rightarrow> Get_scan c now key rest
           | Some entry \<Rightarrow>
               if now > expiry entry then ('''', False, True, None)
               else (val entry, True, False, None)))"

definition Get ::
  "InMemoryCache \<Rightarrow> int \<Rightarrow> string list \<Rightarrow> string \<Rightarrow> string \<times> bool \<times> bool \<times> error option" where
  "Get c now order key =
     (case c_segments c (c_currentChecksum c) of
        Some seg \<Rightarrow>
          (case seg key of
             Some entry \<Rightarrow>
               if now > expiry entry then ('''', False, True, None)
               else (val entry, True, True, None)
           | None \<Rightarrow> Get_scan c now key order)
      | None \<Rightarrow> Get_scan c now key order)"

subsection \<open>Set\<close>

definition Set ::
  "InMemoryCache \<Rightarrow> int \<Rightarrow> string \<Rightarrow> string \<Rightarrow> InMemoryCache \<times> error option" where
  "Set c now key v =
     (let segs = (if c_segments c (c_currentChecksum c) = None
                  then (c_segments c)(c_currentChecksum c \<mapsto> Map.empty)
                  else c_segments c);
          entry = \<lparr>expiry = now + c_ttl c, val = v\<rparr>
      in (c\<lparr>c_segments := segs(c_currentChecksum c \<mapsto>
                (case segs (c_currentChecksum c) of
                   Some seg \<Rightarrow> seg(key \<mapsto> entry)
                 | None \<Rightarrow> [key \<mapsto> entry]))\<rparr>, None))"

subsection \<open>Delete\<close>

text \<open>The loop of \<open>Delete\<close> (lines 36-38): \<open>delete(seg, key)\<close> in every segment visited.\<close>

definition Delete_loop :: "string \<Rightarrow> string list \<Rightarrow> (string \<rightharpoonup> segment) \<Rightarrow> (string \<rightharpoonup> segment)" where
  "Delete_loop key order segs =
     fold (\<lambda>g s. case s g of None \<Rightarrow> s | Some seg \<Rightarrow> s(g \<mapsto> seg(key := None))) order segs"

definition Delete :: "InMemoryCache \<Rightarrow> string list \<Rightarrow> string \<Rightarrow> InMemoryCache \<times> error option" where
  "Delete c order key = (c\<lparr>c_segments := Delete_loop key order (c_segments c)\<rparr>, None)"

subsection \<open>The manager\<close>

type_synonym heap = "InMemoryCache list"

record InMemoryCacheManager =
  m_caches :: "string \<rightharpoonup> nat"
  m_currentChecksum :: string
  m_host :: string
  m_ttl :: int

record CacheOptions =
  TTL :: "int option"
  Uncycled :: bool

subsection \<open>Cycle\<close>

text \<open>
  The two pruning loops of \<open>Cycle\<close> (lines 171-175 and 178-182): every generation visited
  that satisfies the test is deleted from the map.
\<close>

definition prune ::
  "(string \<Rightarrow> bool) \<Rightarrow> string list \<Rightarrow> (string \<rightharpoonup> segment) \<Rightarrow> (string \<rightharpoonup> segment)" where
  "prune del order segs = fold (\<lambda>g s. if del g then s(g := None) else s) order segs"

text \<open>The body of the loop over the caches (lines 157-185), on one cache object.\<close>

definition Cycle_cache ::
  "string \<Rightarrow> string \<Rightarrow> bool \<Rightarrow> string list \<Rightarrow> InMemoryCache \<Rightarrow> InMemoryCache" where
  "Cycle_cache checksum oldChecksum force order mCache =
     (if c_uncycled mCache \<and> \<not> force then mCache
      else
        let c1 = mCache\<lparr>c_currentChecksum := checksum\<rparr>;
            c2 = (if c_segments c1 checksum = None
                  then c1\<lparr>c_segments := (c_segments c1)(checksum \<mapsto> Map.empty)\<rparr>
                  else c1)
        in if force
           then c2\<lparr>c_segments := prune (\<lambda>g. g \<noteq> checksum) order (c_segments c2)\<rparr>
           else c2\<lparr>c_segments :=
                  prune (\<lambda>g. g \<noteq> checksum \<and> g \<noteq> oldChecksum) order (c_segments c2)\<rparr>)"

text \<open>
  The loop over \<open>m.caches\<close> (line 156): \<open>corder\<close> lists the classes visited, and
  \<open>sorder cls\<close> is the order in which the pruning loop visits the segments of the cache
  registered under \<open>cls\<close>.
\<close>

fun Cycle_loop ::
  "InMemoryCacheManager \<Rightarrow> string \<Rightarrow> string \<Rightarrow> bool \<Rightarrow> (string \<Rightarrow> string list) \<Rightarrow>
     string list \<Rightarrow> heap \<Rightarrow> heap" where
  "Cycle_loop m checksum oldChecksum force sorder [] h = h"
| "Cycle_loop m checksum oldChecksum force sorder (cls # rest) h =
     (case m_caches m cls of
        None \<Rightarrow> Cycle_loop m checksum oldChecksum force sorder rest h
      | Some p \<Rightarrow>
          if p < length h
          then Cycle_loop m checksum oldChecksum force sorder rest
                 (h[p := Cycle_cache checksum oldChecksum force (sorder cls) (h ! p)])
          else Cycle_loop m checksum oldChecksum force sorder rest h)"

definition Cycle ::
  "string \<Rightarrow> bool \<Rightarrow> string list \<Rightarrow> (string \<Rightarrow> string list) \<Rightarrow>
     heap \<times> InMemoryCacheManager \<Rightarrow> (heap \<times> InMemoryCacheManager) \<times> error option" where
  "Cycle checksum force corder sorder w =
     (case w of (h, m) \<Rightarrow>
        let oldChecksum = m_currentChecksum m;
            m' = m\<lparr>m_currentChecksum := checksum\<rparr>
        in ((Cycle_loop m' checksum oldChecksum force sorder corder h, m'), None))"

subsection \<open>GetCache\<close>

text \<open>
  \<open>GetCache\<close> runs up to three critical sections, each under its own lock:
  the lookup in the registry under the read lock (lines 191-193); then either the update of
  the options under the cache's lock (lines 197-204) followed by the non-blocking send
  (lines 206-213), or the creation under the manager's lock (lines 217-233).
\<close>

definition GetCache_lookup :: "InMemoryCacheManager \<Rightarrow> string \<Rightarrow> nat option" where
  "GetCache_lookup m cls = m_caches m cls"

definition GetCache_update :: "CacheOptions \<Rightarrow> InMemoryCache \<Rightarrow> InMemoryCache \<times> int option" where
  "GetCache_update opts mCache =
     (let c1 = mCache\<lparr>c_uncycled := Uncycled opts\<rparr>
      in case TTL opts of
           None \<Rightarrow> (c1, None)
         | Some t \<Rightarrow> if c_ttl c1 \<noteq> t then (c1\<lparr>c_ttl := t\<rparr>, Some t) else (c1, None))"

definition GetCache_send :: "int option \<Rightarrow> InMemoryCache \<Rightarrow> InMemoryCache" where
  "GetCache_send newTTL mCache =
     (case newTTL of
        None \<Rightarrow> mCache
      | Some t \<Rightarrow>
          (case c_updateChan mCache of
             Buffered None \<Rightarrow> mCache\<lparr>c_updateChan := Buffered (Some t)\<rparr>
           | _ \<Rightarrow> mCache))"

definition GetCache_create ::
  "string \<Rightarrow> CacheOptions \<Rightarrow> heap \<times> InMemoryCacheManager \<Rightarrow>
     (heap \<times> InMemoryCacheManager) \<times> nat" where
  "GetCache_create cls opts w =
     (case w of (h, m) \<Rightarrow>
        let ttl = (case TTL opts of Some t \<Rightarrow> t | None \<Rightarrow> m_ttl m);
            cache = \<lparr>c_class = cls, c_currentChecksum = m_currentChecksum m, c_host = m_host m,
                     c_segments = Map.empty, c_ttl = ttl, c_uncycled = Uncycled opts,
                     c_updateChan = NilChan\<rparr>;
            p = length h
        in ((h @ [cache], m\<lparr>m_caches := (m_caches m)(cls \<mapsto> p)\<rparr>), p))"

text \<open>The first action of the reaper goroutine (line 120).\<close>

definition startReaper :: "InMemoryCache \<Rightarrow> InMemoryCache" where
  "startReaper c = c\<lparr>c_updateChan := Buffered None\<rparr>"

text \<open>One call of \<open>GetCache\<close> with no other goroutine running in between.\<close>

definition GetCache ::
  "string \<Rightarrow> CacheOptions \<Rightarrow> heap \<times> InMemoryCacheManager \<Rightarrow>
     (heap \<times> InMemoryCacheManager) \<times> nat" where
  "GetCache cls opts w =
     (case w of (h, m) \<Rightarrow>
        (case GetCache_lookup m cls of
           Some p \<Rightarrow>
             (case GetCache_update opts (h ! p) of
                (c1, newTTL) \<Rightarrow> ((h[p := GetCache_send newTTL c1], m), p))
         | None \<Rightarrow> GetCache_create cls opts w))"

text \<open>
  Concurrent callers: a goroutine inside \<open>GetCache\<close> is at one of these points, and
  \<open>GetCache_step\<close> runs its next critical section.
\<close>

datatype GetCache_pc =
  AtEntry
| AfterHit nat
| AfterMiss
| BeforeSend nat "int option"
| Returned nat

fun GetCache_step ::
  "string \<Rightarrow> CacheOptions \<Rightarrow> GetCache_pc \<Rightarrow> heap \<times> InMemoryCacheManager \<Rightarrow>
     GetCache_pc \<times> (heap \<times> InMemoryCacheManager)" where
  "GetCache_step cls opts AtEntry (h, m) =
     (case GetCache_lookup m cls of Some p \<Rightarrow> (AfterHit p, (h, m)) | None \<Rightarrow> (AfterMiss, (h, m)))"
| "GetCache_step cls opts (AfterHit p) (h, m) =
     (case GetCache_update opts (h ! p) of
        (c1, newTTL) \<Rightarrow> (BeforeSend p newTTL, (h[p := c1], m)))"
| "GetCache_step cls opts (BeforeSend p newTTL) (h, m) =
     (Returned p, (h[p := GetCache_send newTTL (h ! p)], m))"
| "GetCache_step cls opts AfterMiss (h, m) =
     (case GetCache_create cls opts (h, m) of (w', p) \<Rightarrow> (Returned p, w'))"
| "GetCache_step cls opts (Returned p) (h, m) = (Returned p, (h, m))"

text \<open>
  A schedule is the list of the goroutines' indices in the order in which they run their
  next critical section.
\<close>

type_synonym goroutine = "string \<times> CacheOptions \<times> GetCache_pc"

definition sched_step ::
  "nat \<Rightarrow> goroutine list \<times> (heap \<times> InMemoryCacheManager) \<Rightarrow>
     goroutine list \<times> (heap \<times> InMemoryCacheManager)" where
  "sched_step i st =
     (case st of (gs, w) \<Rightarrow>
        if i < length gs
        then (case gs ! i of (cls, opts, pc) \<Rightarrow>
                (case GetCache_step cls opts pc w of
                   (pc', w') \<Rightarrow> (gs[i := (cls, opts, pc')], w')))
        else (gs, w))"

definition run_schedule ::
  "nat list \<Rightarrow> goroutine list \<times> (heap \<times> InMemoryCacheManager) \<Rightarrow>
     goroutine list \<times> (heap \<times> InMemoryCacheManager)" where
  "run_schedule sched st = fold sched_step sched st"

subsection \<open>Calls through a pointer\<close>

text \<open>
  A world is the heap together with the manager. \<open>Get_at\<close> and \<open>Set_at\<close> are the
  methods called on the cache behind the pointer \<open>p\<close>.
\<close>

definition Get_at ::
  "nat \<Rightarrow> int \<Rightarrow> string list \<Rightarrow> string \<Rightarrow> heap \<times> InMemoryCacheManager \<Rightarrow>
     string \<times> bool \<times> bool \<times> error option" where
  "Get_at p now order key w = Get (fst w ! p) now order key"

definition Set_at ::
  "nat \<Rightarrow> int \<Rightarrow> string \<Rightarrow> string \<Rightarrow> heap \<times> InMemoryCacheManager \<Rightarrow>
     heap \<times> InMemoryCacheManager" where
  "Set_at p now key v w = ((fst w)[p := fst (Set (fst w ! p) now key v)], snd w)"

text \<open>A manager that has not created any cache yet.\<close>

definition new_manager :: "string \<Rightarrow> string \<Rightarrow> int \<Rightarrow> heap \<times> InMemoryCacheManager" where
  "new_manager checksum hostname ttl =
     ([], \<lparr>m_caches = Map.empty, m_currentChecksum = checksum, m_host = hostname, m_ttl = ttl\<rparr>)"

subsection \<open>Notions used by the statements\<close>

text \<open>
  \<open>managed corder w p\<close>: the pointer \<open>p\<close> is a live cache object that the registry holds
  under a class which the loop over \<open>m.caches\<close> visits.
\<close>

definition managed :: "string list \<Rightarrow> heap \<times> InMemoryCacheManager \<Rightarrow> nat \<Rightarrow> bool" where
  "managed corder w p =
     (p < length (fst w) \<and> (\<exists>cls \<in> set corder. m_caches (snd w) cls = Some p))"

text \<open>
  \<open>segments_covered sorder w p\<close>: every pruning loop that runs over the segments of the
  cache behind \<open>p\<close> reaches each of its segments.
\<close>

definition segments_covered ::
  "(string \<Rightarrow> string list) \<Rightarrow> heap \<times> InMemoryCacheManager \<Rightarrow> nat \<Rightarrow> bool" where
  "segments_covered sorder w p =
     (\<forall>cls. m_caches (snd w) cls = Some p \<longrightarrow> covers (sorder cls) (c_segments (fst w ! p)))"

text \<open>\<open>stored c g key\<close>: the segment of generation \<open>g\<close> exists and holds \<open>key\<close>.\<close>

definition stored :: "InMemoryCache \<Rightarrow> string \<Rightarrow> string \<Rightarrow> bool" where
  "stored c g key = (case c_segments c g of None \<Rightarrow> False | Some seg \<Rightarrow> seg key \<noteq> None)"

text \<open>
  What \<open>Cycle_cache\<close> computes when the pruning loop reaches every segment: the cache is
  skipped, or it moves to \<open>checksum\<close> and keeps the segment of \<open>checksum\<close> (made empty if
  it was absent) and, when not forced, the segment of \<open>oldChecksum\<close>.
\<close>

definition Cycle_cache_result :: "string \<Rightarrow> string \<Rightarrow> bool \<Rightarrow> InMemoryCache \<Rightarrow> InMemoryCache" where
  "Cycle_cache_result checksum oldChecksum force c =
     (if c_uncycled c \<and> \<not> force then c
      else c\<lparr>c_currentChecksum := checksum,
             c_segments :=
               (\<lambda>g. if g = checksum
                    then (case c_segments c g of None \<Rightarrow> Some Map.empty | Some seg \<Rightarrow> Some seg)
                    else if \<not> force \<and> g = oldChecksum then c_segments c g
                    else None)\<rparr>)"

definition adopted :: "string \<Rightarrow> InMemoryCache \<Rightarrow> bool" where
  "adopted checksum c = (c_currentChecksum c = checksum \<and> c_segments c checksum \<noteq> None)"

subsection \<open>Example worlds\<close>

definition cycled_opts :: CacheOptions where
  "cycled_opts = \<lparr>TTL = None, Uncycled = False\<rparr>"

definition uncycled_opts :: CacheOptions where
  "uncycled_opts = \<lparr>TTL = None, Uncycled = True\<rparr>"

text \<open>
  The world after the first \<open>GetCache\<close> for the class \<open>pages\<close> on a new manager at
  generation \<open>G\<close> with a default TTL of 60: the new cache is behind pointer 0.
\<close>

definition pages_world :: "string \<Rightarrow> CacheOptions \<Rightarrow> heap \<times> InMemoryCacheManager" where
  "pages_world G opts = fst (GetCache ''pages'' opts (new_manager G ''example.org'' 60))"

text \<open>The order in which the examples let every loop visit the generations.\<close>

definition gens :: "string list" where
  "gens = [''g1'', ''g2'', ''g3'']"

text \<open>
  \<open>Set(k, v)\<close> at time 0 under generation \<open>g1\<close>, then \<open>Cycle(g2, false)\<close>: the cache is at
  \<open>g2\<close> and still holds \<open>k\<close> under \<open>g1\<close>.
\<close>

definition stale_world :: "heap \<times> InMemoryCacheManager" where
  "stale_world =
     fst (Cycle ''g2'' False [''pages''] (\<lambda>_. gens)
            (Set_at 0 0 ''k'' ''v'' (pages_world ''g1'' cycled_opts)))"


text \<open>
  From \<open>stale_world\<close>: \<open>GetCache\<close> sets the cache's \<open>uncycled\<close> flag, \<open>Cycle(g1, false)\<close>
  skips the cache, and \<open>GetCache\<close> clears the flag again. The manager is at \<open>g1\<close>; the
  cache is not uncycled, is still at \<open>g2\<close>, and holds \<open>k\<close> under \<open>g1\<close>.
\<close>

definition unsynced_world :: "heap \<times> InMemoryCacheManager" where
  "unsynced_world =
     fst (GetCache ''pages'' cycled_opts
            (fst (Cycle ''g1'' False [''pages''] (\<lambda>_. gens)
                    (fst (GetCache ''pages'' uncycled_opts stale_world)))))"

section \<open>Auxiliary lemmas\<close>

subsection \<open>Get\<close>

lemma Get_scan_expired:
  assumes "\<forall>gen seg entry. c_segments c gen = Some seg \<longrightarrow> seg key = Some entry \<longrightarrow> expiry entry < now"
  shows "Get_scan c now key order = ('''', False, True, None)"
  using assms by (induction order) (auto split: option.splits)

subsection \<open>Delete\<close>

lemma Delete_loop_apply:
  "Delete_loop key order segs g =
     (if g \<in> set order then map_option (\<lambda>seg. seg(key := None)) (segs g) else segs g)"
  unfolding Delete_loop_def
  by (induction order arbitrary: segs) (auto split: option.splits)

lemma Delete_loop_covers:
  assumes "covers order segs"
  shows "Delete_loop key order segs = (\<lambda>g. map_option (\<lambda>seg. seg(key := None)) (segs g))"
proof
  fix g
  show "Delete_loop key order segs g = map_option (\<lambda>seg. seg(key := None)) (segs g)"
    using assms by (cases "segs g") (auto simp: Delete_loop_apply covers_def)
qed

subsection \<open>Cycle on one cache\<close>

lemma prune_apply:
  "prune del order segs g = (if g \<in> set order \<and> del g then None else segs g)"
  unfolding prune_def
  by (induction order arbitrary: segs) auto

lemma Cycle_cache_covers:
  assumes "covers order (c_segments c)"
  shows "Cycle_cache checksum oldChecksum force order c = Cycle_cache_result checksum oldChecksum force c"
proof -
  have dom: "\<And>g. g \<notin> set order \<Longrightarrow> c_segments c g = None"
    using assms by (auto simp: covers_def)
  show ?thesis
    unfolding Cycle_cache_def Cycle_cache_result_def Let_def
    by (auto simp: prune_apply fun_eq_iff dom split: option.splits intro!: arg_cong2[where f="\<lambda>a b. c\<lparr>c_currentChecksum := a, c_segments := b\<rparr>"])
qed

lemma Cycle_cache_again:
  "Cycle_cache checksum oldChecksum force order (Cycle_cache_result checksum oldChecksum force c)
     = Cycle_cache_result checksum oldChecksum force c"
  unfolding Cycle_cache_def Cycle_cache_result_def Let_def
  by (auto simp: prune_apply fun_eq_iff split: option.splits)

subsection \<open>The loop of Cycle over the registry\<close>

text \<open>
  Two classes may name the same pointer, so a cache may be visited more than once; the
  lemmas below follow one pointer through the whole loop.
\<close>

lemma Cycle_loop_length [simp]:
  "length (Cycle_loop m checksum oldChecksum force sorder corder h) = length h"
  by (induction corder arbitrary: h) (auto split: option.splits)

lemma Cycle_loop_done:
  assumes "p < length h"
    and "h ! p = Cycle_cache_result checksum oldChecksum force c0"
  shows "Cycle_loop m checksum oldChecksum force sorder corder h ! p
           = Cycle_cache_result checksum oldChecksum force c0"
  using assms
proof (induction corder arbitrary: h)
  case Nil
  then show ?case by simp
next
  case (Cons cls rest)
  show ?case
  proof (cases "m_caches m cls")
    case None
    with Cons show ?thesis by simp
  next
    case (Some q)
    show ?thesis
    proof (cases "q < length h")
      case False
      with Some Cons show ?thesis by simp
    next
      case True
      let ?h' = "h[q := Cycle_cache checksum oldChecksum force (sorder cls) (h ! q)]"
      have "p < length ?h'" using Cons.prems by simp
      moreover have "?h' ! p = Cycle_cache_result checksum oldChecksum force c0"
        using Cons.prems True by (cases "q = p") (auto simp: Cycle_cache_again)
      ultimately have "Cycle_loop m checksum oldChecksum force sorder rest ?h' ! p
                         = Cycle_cache_result checksum oldChecksum force c0"
        by (rule Cons.IH)
      with Some True show ?thesis by simp
    qed
  qed
qed

lemma Cycle_loop_visit:
  assumes "p < length h"
    and "\<forall>cls. m_caches m cls = Some p \<longrightarrow> covers (sorder cls) (c_segments (h ! p))"
  shows "Cycle_loop m checksum oldChecksum force sorder corder h ! p
           = (if \<exists>cls \<in> set corder. m_caches m cls = Some p
              then Cycle_cache_result checksum oldChecksum force (h ! p) else h ! p)"
  using assms
proof (induction corder arbitrary: h)
  case Nil
  then show ?case by simp
next
  case (Cons cls rest)
  show ?case
  proof (cases "m_caches m cls")
    case None
    with Cons show ?thesis by simp
  next
    case (Some q)
    show ?thesis
    proof (cases "q < length h")
      case False
      then have "q \<noteq> p" using Cons.prems by auto
      with False Some Cons show ?thesis by simp
    next
      case True
      let ?h' = "h[q := Cycle_cache checksum oldChecksum force (sorder cls) (h ! q)]"
      show ?thesis
      proof (cases "q = p")
        case False
        then have "?h' ! p = h ! p" by simp
        moreover have "p < length ?h'" using Cons.prems by simp
        ultimately have "Cycle_loop m checksum oldChecksum force sorder rest ?h' ! p
           = (if \<exists>cls \<in> set rest. m_caches m cls = Some p
              then Cycle_cache_result checksum oldChecksum force (h ! p) else h ! p)"
          using Cons.IH [of ?h'] Cons.prems(2) by simp
        with Some True False show ?thesis by simp
      next
        case eq: True
        have "covers (sorder cls) (c_segments (h ! p))"
          using Cons.prems(2) Some eq by simp
        then have "?h' ! p = Cycle_cache_result checksum oldChecksum force (h ! p)"
          using eq Cons.prems(1) by (simp add: Cycle_cache_covers)
        moreover have "p < length ?h'" using Cons.prems by simp
        ultimately have "p < length ?h'" and "?h' ! p = Cycle_cache_result checksum oldChecksum force (h ! p)"
          by simp_all
        then have "Cycle_loop m checksum oldChecksum force sorder rest ?h' ! p
                           = Cycle_cache_result checksum oldChecksum force (h ! p)"
          by (rule Cycle_loop_done)
        with Some True eq show ?thesis by simp
      qed
    qed
  qed
qed

lemma Cycle_loop_skipped:
  assumes "p < length h" and "c_uncycled (h ! p)"
  shows "Cycle_loop m checksum oldChecksum False sorder corder h ! p = h ! p"
  using assms
proof (induction corder arbitrary: h)
  case Nil
  then show ?case by simp
next
  case (Cons cls rest)
  show ?case
  proof (cases "m_caches m cls")
    case None
    with Cons show ?thesis by simp
  next
    case (Some q)
    show ?thesis
    proof (cases "q < length h")
      case False
      with Some Cons show ?thesis by simp
    next
      case True
      let ?h' = "h[q := Cycle_cache checksum oldChecksum False (sorder cls) (h ! q)]"
      have same: "?h' ! p = h ! p"
        using Cons.prems True by (cases "q = p") (auto simp: Cycle_cache_def)
      then have "Cycle_loop m checksum oldChecksum False sorder rest ?h' ! p = ?h' ! p"
        using Cons.IH [of ?h'] Cons.prems by simp
      with Some True same show ?thesis by simp
    qed
  qed
qed

lemma Cycle_cache_adopted:
  assumes "\<not> c_uncycled c \<or> force"
  shows "adopted checksum (Cycle_cache checksum oldChecksum force order c)"
    and "c_uncycled (Cycle_cache checksum oldChecksum force order c) = c_uncycled c"
  using assms unfolding Cycle_cache_def adopted_def Let_def
  by (auto simp: prune_apply)

lemma Cycle_loop_adopted:
  assumes "p < length h" and "\<not> c_uncycled (h ! p) \<or> force"
    and "adopted checksum (h ! p) \<or> (\<exists>cls \<in> set corder. m_caches m cls = Some p)"
  shows "adopted checksum (Cycle_loop m checksum oldChecksum force sorder corder h ! p)"
  using assms
proof (induction corder arbitrary: h)
  case Nil
  then show ?case by simp
next
  case (Cons cls rest)
  show ?case
  proof (cases "m_caches m cls")
    case None
    with Cons show ?thesis by simp
  next
    case (Some q)
    show ?thesis
    proof (cases "q < length h")
      case False
      then have "q \<noteq> p" using Cons.prems by auto
      with False Some Cons show ?thesis by simp
    next
      case True
      let ?h' = "h[q := Cycle_cache checksum oldChecksum force (sorder cls) (h ! q)]"
      have len: "p < length ?h'" using Cons.prems by simp
      have unc: "\<not> c_uncycled (?h' ! p) \<or> force"
        using Cons.prems True by (cases "q = p") (auto simp: Cycle_cache_adopted)
      have "adopted checksum (?h' ! p) \<or> (\<exists>cls \<in> set rest. m_caches m cls = Some p)"
        using Cons.prems True Some by (cases "q = p") (auto simp: Cycle_cache_adopted)
      with len unc have "adopted checksum (Cycle_loop m checksum oldChecksum force sorder rest ?h' ! p)"
        by (rule Cons.IH)
      with Some True show ?thesis by simp
    qed
  qed
qed

subsection \<open>Get on the state that Cycle leaves\<close>

lemma Get_absent:
  assumes "\<forall>g. \<not> stored c g key"
  shows "Get c now order key = ('''', False, True, None)"
proof -
  have "\<forall>gen seg entry. c_segments c gen = Some seg \<longrightarrow> seg key = Some entry \<longrightarrow> expiry entry < now"
    using assms by (fastforce simp: stored_def split: option.splits)
  then have "Get_scan c now key order = ('''', False, True, None)"
    by (rule Get_scan_expired)
  moreover have "\<not> stored c (c_currentChecksum c) key"
    using assms by simp
  ultimately show ?thesis
    by (auto simp: Get_def stored_def split: option.splits)
qed

lemma Get_scan_hit:
  assumes "G \<in> set order" and "G \<noteq> c_currentChecksum c"
    and "c_segments c G = Some seg" and "seg key = Some entry"
    and "\<forall>g. g \<noteq> G \<longrightarrow> g \<noteq> c_currentChecksum c \<longrightarrow> \<not> stored c g key"
  shows "Get_scan c now key order =
           (if now > expiry entry then ('''', False, True, None) else (val entry, True, False, None))"
proof -
  have others: "s key = None"
    if "g \<noteq> G" and "g \<noteq> c_currentChecksum c" and "c_segments c g = Some s" for g s
    using assms(5) that by (fastforce simp: stored_def split: option.splits)
  show ?thesis
    using assms(1)
  proof (induction order)
    case Nil
    then show ?case by simp
  next
    case (Cons gen rest)
    show ?case
    proof (cases "gen = G")
      case True
      then show ?thesis using assms(2,3,4) by simp
    next
      case False
      then have "G \<in> set rest" using Cons.prems by simp
      then have IH: "Get_scan c now key rest =
           (if now > expiry entry then ('''', False, True, None) else (val entry, True, False, None))"
        by (rule Cons.IH)
      show ?thesis
      proof (cases "gen = c_currentChecksum c")
        case True
        then show ?thesis using IH by simp
      next
        case cur: False
        show ?thesis
        proof (cases "c_segments c gen")
          case None
          then show ?thesis using IH cur by simp
        next
          case (Some s)
          then have "s key = None" using others [OF False cur] by simp
          then show ?thesis using IH cur Some by simp
        qed
      qed
    qed
  qed
qed

lemma Get_not_current:
  assumes "\<not> stored c (c_currentChecksum c) key"
  shows "Get c now order key = Get_scan c now key order"
  using assms by (auto simp: Get_def stored_def split: option.splits)

lemma Get_stale_not_current:
  assumes "Get c now order key = (v, True, False, e)"
  shows "\<not> stored c (c_currentChecksum c) key"
  using assms by (auto simp: Get_def stored_def split: option.splits if_splits)

lemma Cycle_fst:
  "fst (fst (Cycle checksum force corder sorder w)) =
     Cycle_loop ((snd w)\<lparr>m_currentChecksum := checksum\<rparr>) checksum (m_currentChecksum (snd w))
       force sorder corder (fst w)"
  by (cases w) (simp add: Cycle_def Let_def)

lemma Cycle_snd:
  "snd (fst (Cycle checksum force corder sorder w)) = (snd w)\<lparr>m_currentChecksum := checksum\<rparr>"
  by (cases w) (simp add: Cycle_def Let_def)

lemma Cycle_error:
  "snd (Cycle checksum force corder sorder w) = None"
  by (cases w) (simp add: Cycle_def Let_def)

lemma Cycle_at:
  assumes "managed corder w p" and "segments_covered sorder w p"
  shows "fst (fst (Cycle checksum force corder sorder w)) ! p =
           Cycle_cache_result checksum (m_currentChecksum (snd w)) force (fst w ! p)"
proof -
  let ?m = "(snd w)\<lparr>m_currentChecksum := checksum\<rparr>"
  have len: "p < length (fst w)" using assms(1) by (simp add: managed_def)
  have cov: "\<forall>cls. m_caches ?m cls = Some p \<longrightarrow> covers (sorder cls) (c_segments (fst w ! p))"
    using assms(2) by (simp add: segments_covered_def)
  have vis: "\<exists>cls \<in> set corder. m_caches ?m cls = Some p"
    using assms(1) by (simp add: managed_def)
  show ?thesis
    using Cycle_loop_visit [OF len cov, of checksum "m_currentChecksum (snd w)" force corder] vis
    by (simp add: Cycle_fst)
qed

lemma managed_Cycle:
  "managed corder' (fst (Cycle checksum force corder sorder w)) p = managed corder' w p"
  by (simp add: managed_def Cycle_fst Cycle_snd)

lemma Set_at_nth:
  assumes "p < length (fst w)"
  shows "fst (Set_at p now key v w) ! p = fst (Set (fst w ! p) now key v)"
  using assms by (simp add: Set_at_def)

lemma managed_Set_at:
  "managed corder (Set_at p' now key v w) p = managed corder w p"
  by (simp add: managed_def Set_at_def)

lemma Set_fields:
  "c_currentChecksum (fst (Set c now key v)) = c_currentChecksum c"
  "c_uncycled (fst (Set c now key v)) = c_uncycled c"
  "c_ttl (fst (Set c now key v)) = c_ttl c"
  by (simp_all add: Set_def Let_def)

lemma Set_segments:
  "c_segments (fst (Set c now key v)) g =
     (if g = c_currentChecksum c
      then Some ((case c_segments c g of None \<Rightarrow> Map.empty | Some seg \<Rightarrow> seg)
                   (key \<mapsto> \<lparr>expiry = now + c_ttl c, val = v\<rparr>))
      else c_segments c g)"
  by (auto simp: Set_def Let_def split: option.splits)

subsection \<open>Evaluation of the example worlds, and GetCache\<close>

lemmas run_defs = Get_at_def Set_at_def Get_def Set_def Cycle_def Cycle_cache_def prune_def
  GetCache_def GetCache_lookup_def GetCache_create_def GetCache_update_def GetCache_send_def
  new_manager_def pages_world_def stale_world_def gens_def cycled_opts_def uncycled_opts_def
  managed_def segments_covered_def covers_def stored_def Let_def

text \<open>
  A call of \<open>GetCache\<close> that no other goroutine interrupts is the three steps of one
  goroutine, and a second such call for the same class returns the pointer of the first.
\<close>

lemma GetCache_steps:
  "run_schedule [0, 0, 0] ([(cls, opts, AtEntry)], w)
     = ([(cls, opts, Returned (snd (GetCache cls opts w)))], fst (GetCache cls opts w))"
proof (cases w)
  case (Pair h m)
  show ?thesis
  proof (cases "m_caches m cls")
    case None
    then show ?thesis
      by (simp add: Pair run_schedule_def sched_step_def GetCache_def GetCache_lookup_def
            split: prod.splits)
  next
    case (Some p)
    then show ?thesis
      by (cases "p < length h")
         (simp_all add: Pair run_schedule_def sched_step_def GetCache_def GetCache_lookup_def
            list_update_beyond split: prod.splits)
  qed
qed

lemma GetCache_twice_same:
  "snd (GetCache cls opts' (fst (GetCache cls opts w))) = snd (GetCache cls opts w)"
proof (cases w)
  case (Pair h m)
  then show ?thesis
    by (cases "m_caches m cls")
       (simp_all add: GetCache_def GetCache_lookup_def GetCache_create_def Let_def
          split: prod.splits)
qed

lemma Cycle_cache_result_fields:
  assumes "\<not> c_uncycled c \<or> force"
  shows "c_currentChecksum (Cycle_cache_result checksum oldChecksum force c) = checksum"
    and "c_segments (Cycle_cache_result checksum oldChecksum force c) =
           (\<lambda>g. if g = checksum
                then Some (case c_segments c g of None \<Rightarrow> Map.empty | Some seg \<Rightarrow> seg)
                else if \<not> force \<and> g = oldChecksum then c_segments c g
                else None)"
    and "c_uncycled (Cycle_cache_result checksum oldChecksum force c) = c_uncycled c"
  using assms by (auto simp: Cycle_cache_result_def fun_eq_iff split: option.splits)

lemma stored_Cycle_cache_result:
  assumes "\<not> c_uncycled c \<or> force"
  shows "stored (Cycle_cache_result checksum oldChecksum force c) g key =
           ((g = checksum \<or> (\<not> force \<and> g = oldChecksum)) \<and> stored c g key)"
  using assms by (auto simp: stored_def Cycle_cache_result_fields split: option.splits)

lemma stored_Set:
  "stored (fst (Set c now key v)) g key' =
     (stored c g key' \<or> (g = c_currentChecksum c \<and> key' = key))"
  by (auto simp: stored_def Set_segments split: option.splits)

lemma pages_world_eq:
  "pages_world G opts =
     ([\<lparr>c_class = ''pages'', c_currentChecksum = G, c_host = ''example.org'',
         c_segments = Map.empty, c_ttl = (case TTL opts of Some t \<Rightarrow> t | None \<Rightarrow> 60),
         c_uncycled = Uncycled opts, c_updateChan = NilChan\<rparr>],
      \<lparr>m_caches = [''pages'' \<mapsto> 0], m_currentChecksum = G, m_host = ''example.org'',
        m_ttl = 60\<rparr>)"
  by (simp add: pages_world_def GetCache_def GetCache_lookup_def GetCache_create_def
        new_manager_def Let_def split: option.splits)

lemma stale_world_eq:
  "stale_world =
     ([\<lparr>c_class = ''pages'', c_currentChecksum = ''g2'', c_host = ''example.org'',
         c_segments = [''g1'' \<mapsto> [''k'' \<mapsto> \<lparr>expiry = 60, val = ''v''\<rparr>], ''g2'' \<mapsto> Map.empty],
         c_ttl = 60, c_uncycled = False, c_updateChan = NilChan\<rparr>],
      \<lparr>m_caches = [''pages'' \<mapsto> 0], m_currentChecksum = ''g2'', m_host = ''example.org'',
        m_ttl = 60\<rparr>)"
  by (simp add: stale_world_def pages_world_eq Set_at_def Set_def Cycle_def Cycle_cache_def
        prune_def gens_def cycled_opts_def Let_def)

section \<open>The claims\<close>

text \<open>
  Claim C1. For every key \<open>k\<close> and value \<open>v\<close>, on a cache whose TTL is positive,
  \<open>Set(k, v)\<close> followed immediately by \<open>Get(k)\<close> returns \<open>(v, true, true, nil)\<close>.
  The \<open>Set\<close> runs at time \<open>now\<close> and the \<open>Get\<close> at time \<open>now'\<close>, not earlier and before
  the TTL has elapsed; the cache state and the order of the loop in \<open>Get\<close> are arbitrary.
\<close>

theorem C1_set_then_get:
  assumes "0 < c_ttl c" and "now \<le> now'" and "now' - now < c_ttl c"
  shows "Get (fst (Set c now k v)) now' order k = (v, True, True, None)
         \<and> snd (Set c now k v) = None"
  using assms by (auto simp: Get_def Set_def Let_def split: option.splits)

text \<open>C1 on the new cache of \<open>pages_world\<close>, whose TTL is 60: written at 0, read at 5.\<close>

theorem C1_witness:
  "Get (fst (Set (fst (pages_world ''g1'' cycled_opts) ! 0) 0 ''k'' ''v'')) 5 gens ''k''
     = (''v'', True, True, None)
   \<and> snd (Set (fst (pages_world ''g1'' cycled_opts) ! 0) 0 ''k'' ''v'') = None"
proof -
  let ?c = "fst (pages_world ''g1'' cycled_opts) ! 0"
  have 1: "0 < c_ttl ?c" by (simp add: pages_world_eq cycled_opts_def)
  have 2: "(0::int) \<le> 5" by simp
  have 3: "5 - 0 < c_ttl ?c" by (simp add: pages_world_eq cycled_opts_def)
  show ?thesis by (rule C1_set_then_get [OF 1 2 3])
qed

text \<open>
  Claim C2. For every cache state and key, if every entry stored under that key (in any
  segment) has an expiry strictly before the time of the \<open>Get\<close> call, then \<open>Get\<close> returns
  \<open>("", false, true, nil)\<close>, whatever entries are still physically present and in whatever
  order the segments are visited.
\<close>

theorem C2_expired_never_found:
  assumes "\<forall>gen seg entry. c_segments c gen = Some seg \<longrightarrow> seg key = Some entry \<longrightarrow> expiry entry < now"
  shows "Get c now order key = ('''', False, True, None)"
  using assms Get_scan_expired [OF assms] by (auto simp: Get_def split: option.splits)

text \<open>C2 on an entry written at time 0 with TTL 60 and read at time 100.\<close>

theorem C2_witness:
  "Get (fst (Set_at 0 0 ''k'' ''v'' (pages_world ''g1'' cycled_opts)) ! 0) 100 gens ''k''
     = ('''', False, True, None)"
proof -
  let ?c = "fst (Set_at 0 0 ''k'' ''v'' (pages_world ''g1'' cycled_opts)) ! 0"
  have 1: "\<forall>gen seg entry. c_segments ?c gen = Some seg \<longrightarrow> seg ''k'' = Some entry
             \<longrightarrow> expiry entry < 100"
    by (auto simp: pages_world_eq Set_at_def Set_def cycled_opts_def split: if_splits)
  show ?thesis by (rule C2_expired_never_found [OF 1])
qed

text \<open>
  Claim C3 as stated, "after \<open>Set(k, v)\<close> while the cache's current generation is G, followed
  by a non-forced \<open>Cycle\<close> to G2 with G2 \<noteq> G, a \<open>Get(k)\<close> performed before the entry
  expires returns \<open>(v, true, false, nil)\<close>", fails in two ways.
  \<^item> \<open>Cycle\<close> keeps a segment that already exists for the generation it installs. In
    \<open>stale_world\<close> the cache is at \<open>g2\<close> and holds \<open>k \<mapsto> v\<close> under \<open>g1\<close>; after
    \<open>Set(k, new)\<close> under \<open>g2\<close> and \<open>Cycle(g1, false)\<close>, \<open>Get(k)\<close> answers from the segment
    of \<open>g1\<close>, now current: \<open>(v, true, true, nil)\<close>, not \<open>(new, true, false, nil)\<close>.
  \<^item> A cache whose \<open>uncycled\<close> flag is set is skipped by the non-forced \<open>Cycle\<close> and
    serves the value as current: \<open>(new, true, true, nil)\<close>.
\<close>

theorem C3_counterexample:
  "Get_at 0 2 gens ''k''
     (fst (Cycle ''g1'' False [''pages''] (\<lambda>_. gens) (Set_at 0 1 ''k'' ''new'' stale_world)))
     = (''v'', True, True, None)
   \<and> c_currentChecksum (fst stale_world ! 0) = ''g2''
   \<and> Get_at 0 2 gens ''k''
        (fst (Cycle ''g2'' False [''pages''] (\<lambda>_. gens)
           (Set_at 0 1 ''k'' ''new'' (pages_world ''g1'' uncycled_opts))))
     = (''new'', True, True, None)"
  by (simp add: run_defs)

text \<open>
  Claim C3, amended. On a managed cache that is not uncycled and is at the manager's current
  generation G, after \<open>Set(k, v)\<close> followed by a non-forced \<open>Cycle\<close> to G2 with G2 \<noteq> G, a
  \<open>Get(k)\<close> performed before the entry expires returns \<open>(v, true, false, nil)\<close>, provided
  \<open>k\<close> is not already stored under G2 when the cycle runs.
\<close>

theorem C3_stale_hit_after_cycle:
  assumes man: "managed corder w p"
    and unc: "\<not> c_uncycled (fst w ! p)"
    and cur: "c_currentChecksum (fst w ! p) = G"
    and mcur: "m_currentChecksum (snd w) = G"
    and ne: "G2 \<noteq> G"
    and fresh: "\<not> stored (fst w ! p) G2 k"
    and cov: "segments_covered sorder (Set_at p now k v w) p"
    and ord: "G \<in> set order"
    and t1: "now \<le> now'" and t2: "now' \<le> now + c_ttl (fst w ! p)"
  shows "Get_at p now' order k (fst (Cycle G2 False corder sorder (Set_at p now k v w)))
           = (v, True, False, None)"
proof -
  let ?c = "fst w ! p"
  let ?w1 = "Set_at p now k v w"
  let ?c1 = "fst (Set ?c now k v)"
  let ?c2 = "Cycle_cache_result G2 G False ?c1"
  let ?entry = "\<lparr>expiry = now + c_ttl ?c, val = v\<rparr>"
  have len: "p < length (fst w)" using man by (simp add: managed_def)
  have c1: "fst ?w1 ! p = ?c1" using len by (rule Set_at_nth)
  have m1: "snd ?w1 = snd w" by (simp add: Set_at_def)
  have man1: "managed corder ?w1 p" using man by (simp add: managed_Set_at)
  have unc1: "\<not> c_uncycled ?c1 \<or> False" using unc by (simp add: Set_fields)
  have c2: "fst (fst (Cycle G2 False corder sorder ?w1)) ! p = ?c2"
    using Cycle_at [OF man1 cov, of G2 False] c1 m1 mcur by simp
  have cur2: "c_currentChecksum ?c2 = G2"
    using unc1 by (simp add: Cycle_cache_result_fields)
  have segG: "c_segments ?c2 G =
                Some ((case c_segments ?c G of None \<Rightarrow> Map.empty | Some seg \<Rightarrow> seg)(k \<mapsto> ?entry))"
    using unc1 ne cur by (simp add: Cycle_cache_result_fields Set_segments)
  have notcur: "\<not> stored ?c2 (c_currentChecksum ?c2) k"
    using unc1 ne cur fresh by (simp add: cur2 stored_Cycle_cache_result stored_Set)
  have others: "\<forall>g. g \<noteq> G \<longrightarrow> g \<noteq> c_currentChecksum ?c2 \<longrightarrow> \<not> stored ?c2 g k"
    using unc1 by (simp add: cur2 stored_Cycle_cache_result)
  have "Get_scan ?c2 now' k order =
          (if now' > expiry ?entry then ('''', False, True, None) else (val ?entry, True, False, None))"
    using ord _ segG _ others by (rule Get_scan_hit) (simp_all add: cur2 ne [symmetric])
  then have "Get ?c2 now' order k = (v, True, False, None)"
    using t2 by (simp add: Get_not_current [OF notcur])
  then show ?thesis by (simp add: Get_at_def c2)
qed

text \<open>C3 on the new cache of \<open>pages_world\<close>: written under \<open>g1\<close>, cycled to \<open>g2\<close>.\<close>

theorem C3_witness:
  "Get_at 0 5 gens ''k''
     (fst (Cycle ''g2'' False [''pages''] (\<lambda>_. gens)
        (Set_at 0 0 ''k'' ''v'' (pages_world ''g1'' cycled_opts))))
     = (''v'', True, False, None)"
proof -
  let ?w = "pages_world ''g1'' cycled_opts"
  have 1: "managed [''pages''] ?w 0"
    by (simp add: pages_world_eq managed_def)
  have 2: "\<not> c_uncycled (fst ?w ! 0)"
    by (simp add: pages_world_eq cycled_opts_def)
  have 3: "c_currentChecksum (fst ?w ! 0) = ''g1''"
    by (simp add: pages_world_eq)
  have 4: "m_currentChecksum (snd ?w) = ''g1''"
    by (simp add: pages_world_eq)
  have 5: "''g2'' \<noteq> ''g1''" by simp
  have 6: "\<not> stored (fst ?w ! 0) ''g2'' ''k''"
    by (simp add: pages_world_eq stored_def)
  have 7: "segments_covered (\<lambda>_. gens) (Set_at 0 0 ''k'' ''v'' ?w) 0"
    by (simp add: pages_world_eq segments_covered_def covers_def Set_at_def Set_def gens_def)
  have 8: "''g1'' \<in> set gens" by (simp add: gens_def)
  have 9: "(0::int) \<le> 5" by simp
  have 10: "5 \<le> 0 + c_ttl (fst ?w ! 0)"
    by (simp add: pages_world_eq cycled_opts_def)
  show ?thesis by (rule C3_stale_hit_after_cycle [OF 1 2 3 4 5 6 7 8 9 10])
qed

text \<open>
  Claim C4 as stated fails in its second half, "after \<open>Set(k, v)\<close> under generation G,
  \<open>Cycle(G2, false)\<close>, then \<open>Cycle(G3, false)\<close> with G, G2, G3 pairwise distinct, \<open>Get(k)\<close>
  returns \<open>(_, false, true, nil)\<close>".
  \<^item> In \<open>stale_world\<close> the cache is at \<open>g2\<close> and holds \<open>k \<mapsto> v\<close> under \<open>g1\<close>. After
    \<open>Set(k, new)\<close> under G = \<open>g2\<close>, \<open>Cycle(g1, false)\<close> and \<open>Cycle(g3, false)\<close>, the
    segment of \<open>g2\<close> is pruned, but the segment of \<open>g1\<close> is the preceding generation's and
    still holds \<open>k\<close>: \<open>Get(k)\<close> returns \<open>(v, true, false, nil)\<close>.
  \<^item> A cache whose \<open>uncycled\<close> flag is set is skipped by both cycles and still returns
    \<open>(new, true, true, nil)\<close>.
\<close>

theorem C4_counterexample:
  "Get_at 0 2 gens ''k''
     (fst (Cycle ''g3'' False [''pages''] (\<lambda>_. gens)
        (fst (Cycle ''g1'' False [''pages''] (\<lambda>_. gens)
           (Set_at 0 1 ''k'' ''new'' stale_world)))))
     = (''v'', True, False, None)
   \<and> c_currentChecksum (fst stale_world ! 0) = ''g2''
   \<and> Get_at 0 2 gens ''k''
        (fst (Cycle ''g3'' False [''pages''] (\<lambda>_. gens)
           (fst (Cycle ''g2'' False [''pages''] (\<lambda>_. gens)
              (Set_at 0 1 ''k'' ''new'' (pages_world ''g1'' uncycled_opts))))))
     = (''new'', True, True, None)"
  by (simp add: run_defs)

text \<open>
  Claim C4, amended. On a managed cache that is not uncycled, a non-forced \<open>Cycle\<close> to N
  retains exactly the segment of N (made empty if it was absent) and the segment of the
  manager's preceding generation, unchanged, and deletes every other segment (first
  conjunct, on any world \<open>u\<close> and pointer \<open>q\<close>). In particular, after \<open>Set(k, v)\<close> under
  generation G, \<open>Cycle(G2, false)\<close>, then \<open>Cycle(G3, false)\<close> with G, G2, G3 pairwise
  distinct, the segment of G has been pruned, and \<open>Get(k)\<close> returns
  \<open>("", false, true, nil)\<close> provided \<open>k\<close> was not already stored under G2 or G3.
\<close>

theorem C4_two_generations_retained:
  assumes uman: "managed corder0 u q"
    and uunc: "\<not> c_uncycled (fst u ! q)"
    and ucov: "segments_covered sorder0 u q"
    and man: "managed corder w p" and man': "managed corder' w p"
    and unc: "\<not> c_uncycled (fst w ! p)"
    and cur: "c_currentChecksum (fst w ! p) = G"
    and ne: "G \<noteq> G2" "G \<noteq> G3" "G2 \<noteq> G3"
    and fresh2: "\<not> stored (fst w ! p) G2 k"
    and fresh3: "\<not> stored (fst w ! p) G3 k"
    and cov: "segments_covered sorder (Set_at p now k v w) p"
    and cov': "segments_covered sorder' (fst (Cycle G2 False corder sorder (Set_at p now k v w))) p"
  shows "c_segments (fst (fst (Cycle N False corder0 sorder0 u)) ! q) =
           (\<lambda>g. if g = N
                then Some (case c_segments (fst u ! q) N of None \<Rightarrow> Map.empty | Some seg \<Rightarrow> seg)
                else if g = m_currentChecksum (snd u) then c_segments (fst u ! q) g
                else None)
       \<and> c_segments (fst (fst (Cycle G3 False corder' sorder'
            (fst (Cycle G2 False corder sorder (Set_at p now k v w))))) ! p) G = None
       \<and> Get_at p now' order k
           (fst (Cycle G3 False corder' sorder'
              (fst (Cycle G2 False corder sorder (Set_at p now k v w)))))
           = ('''', False, True, None)"
proof -
  have general: "c_segments (fst (fst (Cycle N False corder0 sorder0 u)) ! q) =
           (\<lambda>g. if g = N
                then Some (case c_segments (fst u ! q) N of None \<Rightarrow> Map.empty | Some seg \<Rightarrow> seg)
                else if g = m_currentChecksum (snd u) then c_segments (fst u ! q) g
                else None)"
    using uunc by (auto simp: Cycle_at [OF uman ucov] Cycle_cache_result_fields fun_eq_iff)
  let ?c = "fst w ! p"
  let ?w1 = "Set_at p now k v w"
  let ?c1 = "fst (Set ?c now k v)"
  let ?old = "m_currentChecksum (snd w)"
  let ?w2 = "fst (Cycle G2 False corder sorder ?w1)"
  let ?c2 = "Cycle_cache_result G2 ?old False ?c1"
  let ?w3 = "fst (Cycle G3 False corder' sorder' ?w2)"
  let ?c3 = "Cycle_cache_result G3 G2 False ?c2"
  have len: "p < length (fst w)" using man by (simp add: managed_def)
  have c1: "fst ?w1 ! p = ?c1" using len by (rule Set_at_nth)
  have m1: "snd ?w1 = snd w" by (simp add: Set_at_def)
  have man1: "managed corder ?w1 p" using man by (simp add: managed_Set_at)
  have unc1: "\<not> c_uncycled ?c1 \<or> False" using unc by (simp add: Set_fields)
  have c2: "fst ?w2 ! p = ?c2"
    using Cycle_at [OF man1 cov, of G2 False] c1 m1 by simp
  have unc2: "\<not> c_uncycled ?c2 \<or> False"
    using unc1 by (simp add: Cycle_cache_result_fields)
  have man2: "managed corder' ?w2 p"
    using man' by (simp add: managed_Cycle managed_Set_at)
  have m2: "m_currentChecksum (snd ?w2) = G2" by (simp add: Cycle_snd)
  have c3: "fst ?w3 ! p = ?c3"
    using Cycle_at [OF man2 cov', of G3 False] c2 m2 by simp
  have pruned: "c_segments ?c3 G = None"
    using unc2 ne by (simp add: Cycle_cache_result_fields)
  have "\<forall>g. \<not> stored ?c3 g k"
    using unc1 unc2 ne cur fresh2 fresh3
    by (auto simp: stored_Cycle_cache_result stored_Set)
  then have "Get ?c3 now' order k = ('''', False, True, None)"
    by (rule Get_absent)
  then show ?thesis
    using general pruned by (simp add: Get_at_def c3)
qed

text \<open>
  C4 with \<open>stale_world\<close> cycled to \<open>g3\<close> for the first conjunct, and the new cache of
  \<open>pages_world\<close> written under \<open>g1\<close> and cycled to \<open>g2\<close>, then \<open>g3\<close>, for the other two.
\<close>

theorem C4_witness:
  "c_segments (fst (fst (Cycle ''g3'' False [''pages''] (\<lambda>_. gens) stale_world)) ! 0) =
     (\<lambda>g. if g = ''g3''
          then Some (case c_segments (fst stale_world ! 0) ''g3'' of
                       None \<Rightarrow> Map.empty | Some seg \<Rightarrow> seg)
          else if g = m_currentChecksum (snd stale_world) then c_segments (fst stale_world ! 0) g
          else None)
   \<and> c_segments (fst (fst (Cycle ''g3'' False [''pages''] (\<lambda>_. gens)
        (fst (Cycle ''g2'' False [''pages''] (\<lambda>_. gens)
           (Set_at 0 0 ''k'' ''v'' (pages_world ''g1'' cycled_opts)))))) ! 0) ''g1'' = None
   \<and> Get_at 0 5 gens ''k''
        (fst (Cycle ''g3'' False [''pages''] (\<lambda>_. gens)
           (fst (Cycle ''g2'' False [''pages''] (\<lambda>_. gens)
              (Set_at 0 0 ''k'' ''v'' (pages_world ''g1'' cycled_opts))))))
       = ('''', False, True, None)"
proof -
  let ?w = "pages_world ''g1'' cycled_opts"
  have u1: "managed [''pages''] stale_world 0"
    by (simp add: stale_world_eq managed_def)
  have u2: "\<not> c_uncycled (fst stale_world ! 0)"
    by (simp add: stale_world_eq)
  have u3: "segments_covered (\<lambda>_. gens) stale_world 0"
    by (simp add: stale_world_eq segments_covered_def covers_def gens_def)
  have 1: "managed [''pages''] ?w 0"
    by (simp add: pages_world_eq managed_def)
  have 2: "\<not> c_uncycled (fst ?w ! 0)"
    by (simp add: pages_world_eq cycled_opts_def)
  have 3: "c_currentChecksum (fst ?w ! 0) = ''g1''"
    by (simp add: pages_world_eq)
  have 4: "''g1'' \<noteq> ''g2''" "''g1'' \<noteq> ''g3''" "''g2'' \<noteq> ''g3''" by simp_all
  have 5: "\<not> stored (fst ?w ! 0) ''g2'' ''k''"
    by (simp add: pages_world_eq stored_def)
  have 6: "\<not> stored (fst ?w ! 0) ''g3'' ''k''"
    by (simp add: pages_world_eq stored_def)
  have 7: "segments_covered (\<lambda>_. gens) (Set_at 0 0 ''k'' ''v'' ?w) 0"
    by (simp add: pages_world_eq segments_covered_def covers_def Set_at_def Set_def gens_def)
  have 8: "segments_covered (\<lambda>_. gens)
             (fst (Cycle ''g2'' False [''pages''] (\<lambda>_. gens) (Set_at 0 0 ''k'' ''v'' ?w))) 0"
    unfolding stale_world_def [symmetric] by (rule u3)
  show ?thesis
    by (rule C4_two_generations_retained [OF u1 u2 u3 1 1 2 3 4 5 6 7 8])
qed

text \<open>
  Claim C5. For every manager state and every generation G, after \<open>Cycle(G, force)\<close>
  returns, every managed cache that is not skipped (\<open>uncycled\<close> is false, or \<open>force\<close> is
  true) has \<open>currentChecksum\<close> equal to G and has a segment for G, the manager's own current
  generation is G, and the error is \<open>nil\<close>. No assumption is made on the order in which
  the pruning loops visit the segments.
\<close>

theorem C5_cycle_adopts:
  assumes "managed corder w p" and "\<not> c_uncycled (fst w ! p) \<or> force"
  shows "c_currentChecksum (fst (fst (Cycle G force corder sorder w)) ! p) = G
       \<and> c_segments (fst (fst (Cycle G force corder sorder w)) ! p) G \<noteq> None
       \<and> m_currentChecksum (snd (fst (Cycle G force corder sorder w))) = G
       \<and> snd (Cycle G force corder sorder w) = None"
proof -
  let ?m = "(snd w)\<lparr>m_currentChecksum := G\<rparr>"
  have len: "p < length (fst w)" using assms(1) by (simp add: managed_def)
  have vis: "adopted G (fst w ! p) \<or> (\<exists>cls \<in> set corder. m_caches ?m cls = Some p)"
    using assms(1) by (simp add: managed_def)
  have "adopted G (Cycle_loop ?m G (m_currentChecksum (snd w)) force sorder corder (fst w) ! p)"
    using len assms(2) vis by (rule Cycle_loop_adopted)
  then show ?thesis
    by (simp add: Cycle_fst Cycle_snd Cycle_error adopted_def)
qed

text \<open>C5 on the new cache of \<open>pages_world\<close>, cycled from \<open>g1\<close> to \<open>g2\<close>.\<close>

theorem C5_witness:
  "c_currentChecksum
     (fst (fst (Cycle ''g2'' False [''pages''] (\<lambda>_. gens) (pages_world ''g1'' cycled_opts))) ! 0)
     = ''g2''
   \<and> c_segments
       (fst (fst (Cycle ''g2'' False [''pages''] (\<lambda>_. gens) (pages_world ''g1'' cycled_opts))) ! 0)
       ''g2'' \<noteq> None
   \<and> m_currentChecksum
       (snd (fst (Cycle ''g2'' False [''pages''] (\<lambda>_. gens) (pages_world ''g1'' cycled_opts))))
     = ''g2''
   \<and> snd (Cycle ''g2'' False [''pages''] (\<lambda>_. gens) (pages_world ''g1'' cycled_opts)) = None"
proof -
  let ?w = "pages_world ''g1'' cycled_opts"
  have 1: "managed [''pages''] ?w 0"
    by (simp add: pages_world_eq managed_def)
  have 2: "\<not> c_uncycled (fst ?w ! 0) \<or> False"
    by (simp add: pages_world_eq cycled_opts_def)
  show ?thesis by (rule C5_cycle_adopts [OF 1 2])
qed

text \<open>
  Claim C6 as stated fails in its consequence, "so a key that was previously served as a
  stale hit returns not-found immediately after the forced cycle". In \<open>stale_world\<close> the
  cache is at \<open>g2\<close> and serves \<open>k\<close> as a stale hit from the segment of \<open>g1\<close>; the forced
  \<open>Cycle(g1, true)\<close> keeps exactly that segment, and \<open>Get(k)\<close> returns
  \<open>(v, true, true, nil)\<close>.
\<close>

theorem C6_counterexample:
  "Get_at 0 1 gens ''k'' stale_world = (''v'', True, False, None)
   \<and> Get_at 0 1 gens ''k'' (fst (Cycle ''g1'' True [''pages''] (\<lambda>_. gens) stale_world))
     = (''v'', True, True, None)"
  by (simp add: run_defs)

text \<open>
  Claim C6, amended. For every state of a managed cache (uncycled or not), after a forced
  \<open>Cycle(G, true)\<close> the cache's segments contain only the segment for G, which is the one
  it had for G or else empty; all other segments, including the immediately preceding
  generation's, are deleted. So a key that is not stored under G itself returns not-found
  immediately after the forced cycle, also when it was served as a stale hit before.
\<close>

theorem C6_forced_cycle:
  assumes man: "managed corder w p" and cov: "segments_covered sorder w p"
  shows "dom (c_segments (fst (fst (Cycle G True corder sorder w)) ! p)) = {G}
       \<and> c_segments (fst (fst (Cycle G True corder sorder w)) ! p) G =
           Some (case c_segments (fst w ! p) G of None \<Rightarrow> Map.empty | Some seg \<Rightarrow> seg)
       \<and> (\<not> stored (fst w ! p) G k \<longrightarrow>
            Get_at p now' order k (fst (Cycle G True corder sorder w)) = ('''', False, True, None))"
proof -
  let ?c' = "Cycle_cache_result G (m_currentChecksum (snd w)) True (fst w ! p)"
  have c': "fst (fst (Cycle G True corder sorder w)) ! p = ?c'"
    by (rule Cycle_at [OF man cov])
  have segs: "c_segments ?c' =
          (\<lambda>g. if g = G
                then Some (case c_segments (fst w ! p) g of None \<Rightarrow> Map.empty | Some seg \<Rightarrow> seg)
                else None)"
    by (auto simp: Cycle_cache_result_fields fun_eq_iff)
  have d: "dom (c_segments ?c') = {G}"
    by (auto simp: segs dom_def)
  have g: "\<not> stored (fst w ! p) G k \<longrightarrow> Get ?c' now' order k = ('''', False, True, None)"
  proof
    assume "\<not> stored (fst w ! p) G k"
    then have "\<forall>g. \<not> stored ?c' g k"
      by (simp add: stored_Cycle_cache_result)
    then show "Get ?c' now' order k = ('''', False, True, None)"
      by (rule Get_absent)
  qed
  show ?thesis
    using d g by (simp add: c' segs Get_at_def)
qed

text \<open>
  C6 on \<open>stale_world\<close>, forced to the new generation \<open>g3\<close>: the key \<open>k\<close> was a stale hit
  before the cycle and is not found after it.
\<close>

theorem C6_witness:
  "dom (c_segments (fst (fst (Cycle ''g3'' True [''pages''] (\<lambda>_. gens) stale_world)) ! 0))
     = {''g3''}
   \<and> Get_at 0 1 gens ''k'' stale_world = (''v'', True, False, None)
   \<and> Get_at 0 1 gens ''k'' (fst (Cycle ''g3'' True [''pages''] (\<lambda>_. gens) stale_world))
     = ('''', False, True, None)"
proof -
  have 1: "managed [''pages''] stale_world 0"
    by (simp add: stale_world_eq managed_def)
  have 2: "segments_covered (\<lambda>_. gens) stale_world 0"
    by (simp add: stale_world_eq segments_covered_def covers_def gens_def)
  have 3: "\<not> stored (fst stale_world ! 0) ''g3'' ''k''"
    by (simp add: stale_world_eq stored_def)
  have 4: "Get_at 0 1 gens ''k'' stale_world = (''v'', True, False, None)"
    by (simp add: stale_world_eq Get_at_def Get_def gens_def)
  note th = C6_forced_cycle [OF 1 2, of "''g3''" "''k''" 1 gens]
  have a: "dom (c_segments (fst (fst (Cycle ''g3'' True [''pages''] (\<lambda>_. gens) stale_world)) ! 0))
             = {''g3''}"
    using th [THEN conjunct1] .
  have b: "Get_at 0 1 gens ''k'' (fst (Cycle ''g3'' True [''pages''] (\<lambda>_. gens) stale_world))
             = ('''', False, True, None)"
    using th [THEN conjunct2, THEN conjunct2, rule_format, OF 3] .
  show ?thesis
    by (intro conjI) (rule 4 a b)+
qed

text \<open>
  Claim C7. A managed cache whose \<open>uncycled\<close> flag is true is left entirely unchanged (the
  whole object, so \<open>currentChecksum\<close> and all segments) by any non-forced \<open>Cycle\<close>, and
  adopts the new generation when \<open>Cycle\<close> is called with \<open>force = true\<close>.
\<close>

theorem C7_uncycled_skipped:
  assumes "managed corder w p" and "c_uncycled (fst w ! p)"
  shows "fst (fst (Cycle G False corder sorder w)) ! p = fst w ! p
       \<and> c_currentChecksum (fst (fst (Cycle G True corder sorder w)) ! p) = G"
proof -
  let ?m = "(snd w)\<lparr>m_currentChecksum := G\<rparr>"
  have len: "p < length (fst w)" using assms(1) by (simp add: managed_def)
  have vis: "adopted G (fst w ! p) \<or> (\<exists>cls \<in> set corder. m_caches ?m cls = Some p)"
    using assms(1) by (simp add: managed_def)
  have "adopted G (Cycle_loop ?m G (m_currentChecksum (snd w)) True sorder corder (fst w) ! p)"
    using len _ vis by (rule Cycle_loop_adopted) simp
  moreover have "Cycle_loop ?m G (m_currentChecksum (snd w)) False sorder corder (fst w) ! p = fst w ! p"
    using len assms(2) by (rule Cycle_loop_skipped)
  ultimately show ?thesis
    by (simp add: Cycle_fst adopted_def)
qed

text \<open>C7 on the cache of \<open>pages_world\<close> created with \<open>Uncycled = true\<close>.\<close>

theorem C7_witness:
  "fst (fst (Cycle ''g2'' False [''pages''] (\<lambda>_. gens) (pages_world ''g1'' uncycled_opts))) ! 0
     = fst (pages_world ''g1'' uncycled_opts) ! 0
   \<and> c_currentChecksum
       (fst (fst (Cycle ''g2'' True [''pages''] (\<lambda>_. gens) (pages_world ''g1'' uncycled_opts))) ! 0)
     = ''g2''"
proof -
  let ?w = "pages_world ''g1'' uncycled_opts"
  have 1: "managed [''pages''] ?w 0"
    by (simp add: pages_world_eq managed_def)
  have 2: "c_uncycled (fst ?w ! 0)"
    by (simp add: pages_world_eq uncycled_opts_def)
  show ?thesis by (rule C7_uncycled_skipped [OF 1 2])
qed

text \<open>
  Claim C8: for every class name at most one cache instance is ever created and registered,
  also for concurrent first-time callers. \<open>GetCache\<close> releases the read lock after the
  lookup (line 193) and takes the write lock at line 217 without looking the class up
  again. Two goroutines that both miss before either creates therefore each create an
  instance: on a new manager, with the schedule in which both run their lookup and then
  both run their creation, the two calls for the class \<open>pages\<close> return the distinct
  pointers 0 and 1, the heap holds two cache objects, and the registry keeps only the
  second. (Without interleaving the claim holds: \<open>GetCache_twice_same\<close>.)
\<close>

theorem C8_race_creates_two_instances:
  "map (\<lambda>g. snd (snd g))
       (fst (run_schedule [0, 1, 0, 1]
               ([(''pages'', cycled_opts, AtEntry), (''pages'', cycled_opts, AtEntry)],
                new_manager ''g1'' ''example.org'' 60)))
     = [Returned 0, Returned 1]
   \<and> length (fst (snd (run_schedule [0, 1, 0, 1]
               ([(''pages'', cycled_opts, AtEntry), (''pages'', cycled_opts, AtEntry)],
                new_manager ''g1'' ''example.org'' 60)))) = 2
   \<and> m_caches (snd (snd (run_schedule [0, 1, 0, 1]
               ([(''pages'', cycled_opts, AtEntry), (''pages'', cycled_opts, AtEntry)],
                new_manager ''g1'' ''example.org'' 60)))) ''pages'' = Some 1"
  by (simp add: run_schedule_def sched_step_def run_defs)

text \<open>
  Claim C9. For every key \<open>k\<close>, \<open>Delete(k)\<close> removes \<open>k\<close> from every segment (current and
  stale), leaves every other key in every segment unchanged and removes no segment, always
  returns \<open>nil\<close>, and is idempotent: deleting an absent key leaves the cache as it is with
  no error, and a second \<open>Delete(k)\<close> leaves the state unchanged.
\<close>

theorem C9_delete:
  assumes "covers order (c_segments c)"
  shows "Delete c order k =
           (c\<lparr>c_segments := (\<lambda>g. map_option (\<lambda>seg. seg(k := None)) (c_segments c g))\<rparr>, None)
       \<and> (\<forall>g. \<not> stored (fst (Delete c order k)) g k)
       \<and> (\<forall>g k'. k' \<noteq> k \<longrightarrow> stored (fst (Delete c order k)) g k' = stored c g k')
       \<and> (\<forall>g seg k'. k' \<noteq> k \<longrightarrow> c_segments c g = Some seg \<longrightarrow>
             (\<exists>seg'. c_segments (fst (Delete c order k)) g = Some seg' \<and> seg' k' = seg k'))
       \<and> dom (c_segments (fst (Delete c order k))) = dom (c_segments c)
       \<and> snd (Delete c order k) = None
       \<and> ((\<forall>g. \<not> stored c g k) \<longrightarrow> Delete c order k = (c, None))
       \<and> Delete (fst (Delete c order k)) order' k = (fst (Delete c order k), None)"
proof -
  have closed: "Delete c order k =
           (c\<lparr>c_segments := (\<lambda>g. map_option (\<lambda>seg. seg(k := None)) (c_segments c g))\<rparr>, None)"
    using assms by (simp add: Delete_def Delete_loop_covers)
  have absent: "\<forall>g. \<not> stored (fst (Delete c order k)) g k"
    by (auto simp: closed stored_def split: option.splits)
  have others: "\<forall>g k'. k' \<noteq> k \<longrightarrow> stored (fst (Delete c order k)) g k' = stored c g k'"
    by (auto simp: closed stored_def split: option.splits)
  have kept: "\<forall>g seg k'. k' \<noteq> k \<longrightarrow> c_segments c g = Some seg \<longrightarrow>
             (\<exists>seg'. c_segments (fst (Delete c order k)) g = Some seg' \<and> seg' k' = seg k')"
    by (auto simp: closed)
  have doms: "dom (c_segments (fst (Delete c order k))) = dom (c_segments c)"
    by (auto simp: closed dom_def)
  have same: "(\<lambda>g. map_option (\<lambda>seg. seg(k := None)) (s g)) = s"
    if "\<forall>g seg. s g = Some seg \<longrightarrow> seg k = None" for s :: "string \<rightharpoonup> segment"
  proof
    fix g show "map_option (\<lambda>seg. seg(k := None)) (s g) = s g"
      using that by (cases "s g") (auto simp: fun_upd_idem)
  qed
  have noop: "(\<forall>g. \<not> stored c g k) \<longrightarrow> Delete c order k = (c, None)"
  proof
    assume a: "\<forall>g. \<not> stored c g k"
    have "\<forall>g seg. c_segments c g = Some seg \<longrightarrow> seg k = None"
      using a by (auto simp: stored_def split: option.splits)
    then show "Delete c order k = (c, None)"
      by (simp add: closed same)
  qed
  have again: "Delete (fst (Delete c order k)) order' k = (fst (Delete c order k), None)"
  proof -
    let ?c' = "fst (Delete c order k)"
    have "Delete_loop k order' (c_segments ?c') = c_segments ?c'"
    proof
      fix g
      show "Delete_loop k order' (c_segments ?c') g = c_segments ?c' g"
        by (cases "c_segments c g") (auto simp: Delete_loop_apply closed fun_upd_idem)
    qed
    then show ?thesis by (simp add: Delete_def)
  qed
  show ?thesis
    using closed absent others kept doms noop again by (simp add: closed)
qed

text \<open>C9 on the cache of \<open>stale_world\<close>, which holds \<open>k\<close> under \<open>g1\<close>.\<close>

theorem C9_witness:
  "stored (fst stale_world ! 0) ''g1'' ''k''
   \<and> (\<forall>g. \<not> stored (fst (Delete (fst stale_world ! 0) gens ''k'')) g ''k'')
   \<and> snd (Delete (fst stale_world ! 0) gens ''k'') = None
   \<and> Delete (fst (Delete (fst stale_world ! 0) gens ''k'')) [''g2'', ''g1''] ''k''
       = (fst (Delete (fst stale_world ! 0) gens ''k''), None)"
proof -
  have 1: "covers gens (c_segments (fst stale_world ! 0))"
    by (simp add: stale_world_eq covers_def gens_def)
  have 2: "stored (fst stale_world ! 0) ''g1'' ''k''"
    by (simp add: stale_world_eq stored_def)
  note th = C9_delete [OF 1, of "''k''" "[''g2'', ''g1'']"]
  have a: "\<forall>g. \<not> stored (fst (Delete (fst stale_world ! 0) gens ''k'')) g ''k''"
    using th [THEN conjunct2, THEN conjunct1] .
  have b: "snd (Delete (fst stale_world ! 0) gens ''k'') = None"
    using th [THEN conjunct2, THEN conjunct2, THEN conjunct2, THEN conjunct2, THEN conjunct2,
              THEN conjunct1] .
  have c: "Delete (fst (Delete (fst stale_world ! 0) gens ''k'')) [''g2'', ''g1''] ''k''
             = (fst (Delete (fst stale_world ! 0) gens ''k''), None)"
    using th [THEN conjunct2, THEN conjunct2, THEN conjunct2, THEN conjunct2, THEN conjunct2,
              THEN conjunct2, THEN conjunct2] .
  show ?thesis
    by (intro conjI) (rule 2 a b c)+
qed

text \<open>
  Claim C10 as stated fails in its last part, "previously-stale keys become not-found".
  A cache need not be at the manager's generation: in \<open>unsynced_world\<close> the manager is at
  \<open>g1\<close> while the cache, not uncycled, is at \<open>g2\<close> and serves \<open>k\<close> as a stale hit from
  the segment of \<open>g1\<close>. \<open>Cycle(g1, false)\<close> keeps exactly that segment and moves the cache
  to \<open>g1\<close>, so \<open>Get(k)\<close> returns \<open>(v, true, true, nil)\<close>.
\<close>

theorem C10_counterexample:
  "m_currentChecksum (snd unsynced_world) = ''g1''
   \<and> c_uncycled (fst unsynced_world ! 0) = False
   \<and> c_currentChecksum (fst unsynced_world ! 0) = ''g2''
   \<and> Get_at 0 1 gens ''k'' unsynced_world = (''v'', True, False, None)
   \<and> Get_at 0 1 gens ''k'' (fst (Cycle ''g1'' False [''pages''] (\<lambda>_. gens) unsynced_world))
       = (''v'', True, True, None)"
  by (simp add: unsynced_world_def run_defs)

text \<open>
  Claim C10, amended. \<open>Cycle(G, false)\<close> when G is already the manager's current generation
  deletes every segment except G's in every managed cache that is not uncycled, and leaves
  such a cache exactly as the forced \<open>Cycle(G, true)\<close> would. Every key that is not stored
  under G is then not found; on a cache that is itself at G, every key that was served as
  a stale hit before is not found after.
\<close>

theorem C10_repeated_cycle_prunes:
  assumes man: "managed corder w p" and cov: "segments_covered sorder w p"
    and unc: "\<not> c_uncycled (fst w ! p)"
    and mcur: "m_currentChecksum (snd w) = G"
  shows "(\<forall>g. g \<noteq> G \<longrightarrow> c_segments (fst (fst (Cycle G False corder sorder w)) ! p) g = None)
       \<and> fst (fst (Cycle G False corder sorder w)) ! p = fst (fst (Cycle G True corder sorder w)) ! p
       \<and> (\<not> stored (fst w ! p) G k \<longrightarrow>
            Get_at p now' order' k (fst (Cycle G False corder sorder w)) = ('''', False, True, None))
       \<and> (c_currentChecksum (fst w ! p) = G \<longrightarrow>
            Get_at p now order k w = (v, True, False, None) \<longrightarrow>
            Get_at p now' order' k (fst (Cycle G False corder sorder w)) = ('''', False, True, None))"
proof -
  let ?c = "fst w ! p"
  let ?c' = "Cycle_cache_result G G False ?c"
  have unc': "\<not> c_uncycled ?c \<or> False" using unc by simp
  have c': "fst (fst (Cycle G False corder sorder w)) ! p = ?c'"
    using Cycle_at [OF man cov, of G False] mcur by simp
  have f: "fst (fst (Cycle G True corder sorder w)) ! p = Cycle_cache_result G G True ?c"
    using Cycle_at [OF man cov, of G True] mcur by simp
  have same: "?c' = Cycle_cache_result G G True ?c"
    using unc by (auto simp: Cycle_cache_result_def fun_eq_iff)
  have segs: "\<forall>g. g \<noteq> G \<longrightarrow> c_segments ?c' g = None"
    using unc' by (simp add: Cycle_cache_result_fields)
  have absent: "Get ?c' now' order' k = ('''', False, True, None)" if "\<not> stored ?c G k"
  proof -
    have "\<forall>g. \<not> stored ?c' g k"
      using unc' that by (simp add: stored_Cycle_cache_result)
    then show ?thesis by (rule Get_absent)
  qed
  have stale: "Get ?c' now' order' k = ('''', False, True, None)"
    if "c_currentChecksum ?c = G" and "Get ?c now order k = (v, True, False, None)"
  proof -
    have "\<not> stored ?c (c_currentChecksum ?c) k"
      using that(2) by (rule Get_stale_not_current)
    then show ?thesis using that(1) absent by simp
  qed
  show ?thesis
    using segs same absent stale by (simp add: c' f Get_at_def)
qed

text \<open>
  C10 on \<open>stale_world\<close>, where manager and cache are at \<open>g2\<close> and \<open>k\<close> is a stale hit from
  \<open>g1\<close>: after \<open>Cycle(g2, false)\<close> the key is not found.
\<close>

theorem C10_witness:
  "Get_at 0 1 gens ''k'' stale_world = (''v'', True, False, None)
   \<and> c_segments (fst (fst (Cycle ''g2'' False [''pages''] (\<lambda>_. gens) stale_world)) ! 0) ''g1''
       = None
   \<and> fst (fst (Cycle ''g2'' False [''pages''] (\<lambda>_. gens) stale_world)) ! 0
       = fst (fst (Cycle ''g2'' True [''pages''] (\<lambda>_. gens) stale_world)) ! 0
   \<and> Get_at 0 1 gens ''k'' (fst (Cycle ''g2'' False [''pages''] (\<lambda>_. gens) stale_world))
       = ('''', False, True, None)"
proof -
  have 1: "managed [''pages''] stale_world 0"
    by (simp add: stale_world_eq managed_def)
  have 2: "segments_covered (\<lambda>_. gens) stale_world 0"
    by (simp add: stale_world_eq segments_covered_def covers_def gens_def)
  have 3: "\<not> c_uncycled (fst stale_world ! 0)"
    by (simp add: stale_world_eq)
  have 4: "m_currentChecksum (snd stale_world) = ''g2''"
    by (simp add: stale_world_eq)
  have 5: "c_currentChecksum (fst stale_world ! 0) = ''g2''"
    by (simp add: stale_world_eq)
  have 6: "Get_at 0 1 gens ''k'' stale_world = (''v'', True, False, None)"
    by (simp add: stale_world_eq Get_at_def Get_def gens_def)
  have 7: "''g1'' \<noteq> ''g2''" by simp
  note th = C10_repeated_cycle_prunes [OF 1 2 3 4, of "''k''" 1 gens 1 gens "''v''"]
  have a: "c_segments (fst (fst (Cycle ''g2'' False [''pages''] (\<lambda>_. gens) stale_world)) ! 0) ''g1''
             = None"
    using th [THEN conjunct1, rule_format, OF 7] .
  have b: "fst (fst (Cycle ''g2'' False [''pages''] (\<lambda>_. gens) stale_world)) ! 0
             = fst (fst (Cycle ''g2'' True [''pages''] (\<lambda>_. gens) stale_world)) ! 0"
    using th [THEN conjunct2, THEN conjunct1] .
  have c: "Get_at 0 1 gens ''k'' (fst (Cycle ''g2'' False [''pages''] (\<lambda>_. gens) stale_world))
             = ('''', False, True, None)"
    using th [THEN conjunct2, THEN conjunct2, THEN conjunct2, rule_format, OF 5 6] .
  show ?thesis
    by (intro conjI) (rule 6 a b c)+
qed

end
